theory Spec2Isabelle
  imports Complex_Main "HOL-Library.Word"
begin

section \<open>Circuit breaker: data model\<close>

text \<open>
  The Go package \<open>internal/circuitbreaker\<close>.  Instants (\<open>time.Time\<close>) and durations
  (\<open>time.Duration\<close>) are integers counting nanoseconds; the zero \<open>time.Time\<close> is \<open>0\<close>,
  \<open>t.Before(u)\<close> is \<open>t < u\<close>, \<open>t.After(u)\<close> is \<open>u < t\<close> and \<open>t.Add(d)\<close> is \<open>t + d\<close>.
  Every call of \<open>time.Now()\<close> in the source is an explicit argument \<open>now\<close> of the
  function that makes it.  The counters are \<open>uint32\<close> and the generation is \<open>uint64\<close>:
  both are machine words, and \<open>++\<close> wraps around.
\<close>

type_synonym Time = int
type_synonym Duration = int

definition Second :: Duration where
  "Second = 1000000000"

definition Millisecond :: Duration where
  "Millisecond = 1000000"

text \<open>state.go: \<open>State\<close>, an \<open>iota\<close> enumeration in this order.\<close>

datatype State = StateClosed | StateHalfOpen | StateOpen

text \<open>state.go: \<open>Counts\<close>.\<close>

record Counts =
  Requests :: "32 word"
  TotalSuccesses :: "32 word"
  TotalFailures :: "32 word"
  ConsecutiveSuccesses :: "32 word"
  ConsecutiveFailures :: "32 word"

text \<open>The zero value \<open>Counts{}\<close>.\<close>

definition Counts_zero :: Counts where
  "Counts_zero = \<lparr>Requests = 0, TotalSuccesses = 0, TotalFailures = 0,
     ConsecutiveSuccesses = 0, ConsecutiveFailures = 0\<rparr>"

text \<open>
  The errors a guarded call can surface: the two rejections of the breaker, the two causes
  of a \<open>context.Context\<close>, and whatever error value the caller's work returns.
\<close>

datatype error =
    ErrCircuitOpen
  | ErrTooManyRequests
  | Canceled
  | DeadlineExceeded
  | WorkError string

text \<open>
  A Go \<open>error\<close> result is \<open>None\<close> for \<open>nil\<close> and \<open>Some e\<close> otherwise.  The work handed to
  \<open>Execute\<close> either returns such a result or panics.
\<close>

datatype work_end = Returns "error option" | Panics

text \<open>What a guarded call gives back to its caller: a returned value, or the re-raised panic.\<close>

datatype exec_result = Returned "error option" | Repanicked

text \<open>
  The state-change notifier is an opaque callback.  A configured notifier is \<open>Some f\<close>,
  \<open>nil\<close> is \<open>None\<close>; each invocation is recorded, with its three arguments, at the end of
  the trace \<open>notified\<close> of the breaker.
\<close>

type_synonym notifier = "string \<Rightarrow> State \<Rightarrow> State \<Rightarrow> unit"

text \<open>config.go (carried in metrics.go, after the metrics): \<open>Config\<close>.\<close>

record Config =
  MaxRequests :: "32 word"
  Interval :: Duration
  Timeout :: Duration
  ReadyToTrip :: "(Counts \<Rightarrow> bool) option"
  OnStateChange :: "notifier option"
  IsSuccessful :: "(error option \<Rightarrow> bool) option"

text \<open>breaker.go (carried in breaker\_test.go, after the tests): \<open>CircuitBreaker\<close> (the mutex is left out: every operation below is one
  critical section), extended by the trace of notifier invocations.\<close>

record CircuitBreaker =
  name :: string
  maxRequests :: "32 word"
  interval :: Duration
  timeout :: Duration
  readyToTrip :: "Counts \<Rightarrow> bool"
  onStateChange :: "notifier option"
  state :: State
  generation :: "64 word"
  counts :: Counts
  expiry :: Time
  notified :: "(string \<times> State \<times> State) list"

section \<open>Circuit breaker: operations\<close>

text \<open>breaker.go: \<open>toNewGeneration\<close>.\<close>

definition toNewGeneration :: "CircuitBreaker \<Rightarrow> Time \<Rightarrow> CircuitBreaker" where
  "toNewGeneration cb now =
     cb\<lparr>generation := generation cb + 1,
        counts := Counts_zero,
        expiry := (case state cb of
                     StateClosed \<Rightarrow> if interval cb = 0 then 0 else now + interval cb
                   | StateOpen \<Rightarrow> now + timeout cb
                   | StateHalfOpen \<Rightarrow> 0)\<rparr>"

text \<open>breaker.go: \<open>setState\<close>.\<close>

definition setState :: "CircuitBreaker \<Rightarrow> State \<Rightarrow> Time \<Rightarrow> CircuitBreaker" where
  "setState cb st now =
     (if state cb = st then cb
      else
        let prev = state cb;
            cb1 = toNewGeneration (cb\<lparr>state := st\<rparr>) now
        in case onStateChange cb1 of
             None \<Rightarrow> cb1
           | Some f \<Rightarrow> cb1\<lparr>notified := notified cb1 @ [(name cb1, prev, st)]\<rparr>)"

text \<open>breaker.go: \<open>currentState\<close>; the pair it returns, and the breaker it leaves behind.\<close>

definition currentState :: "CircuitBreaker \<Rightarrow> Time \<Rightarrow> (State \<times> 64 word) \<times> CircuitBreaker" where
  "currentState cb now =
     (let cb1 = (case state cb of
                   StateClosed \<Rightarrow>
                     if expiry cb \<noteq> 0 \<and> expiry cb < now then toNewGeneration cb now else cb
                 | StateOpen \<Rightarrow>
                     if expiry cb < now then setState cb StateHalfOpen now else cb
                 | StateHalfOpen \<Rightarrow> cb)
      in ((state cb1, generation cb1), cb1))"

text \<open>breaker.go: \<open>onSuccess\<close>.\<close>

definition onSuccess :: "CircuitBreaker \<Rightarrow> State \<Rightarrow> Time \<Rightarrow> CircuitBreaker" where
  "onSuccess cb st now =
     (case st of
        StateClosed \<Rightarrow>
          cb\<lparr>counts := (counts cb)\<lparr>TotalSuccesses := TotalSuccesses (counts cb) + 1,
                ConsecutiveSuccesses := ConsecutiveSuccesses (counts cb) + 1,
                ConsecutiveFailures := 0\<rparr>\<rparr>
      | StateHalfOpen \<Rightarrow>
          (let cb1 = cb\<lparr>counts := (counts cb)\<lparr>TotalSuccesses := TotalSuccesses (counts cb) + 1,
                        ConsecutiveSuccesses := ConsecutiveSuccesses (counts cb) + 1,
                        ConsecutiveFailures := 0\<rparr>\<rparr>
           in if ConsecutiveSuccesses (counts cb1) \<ge> maxRequests cb1
              then setState cb1 StateClosed now else cb1)
      | StateOpen \<Rightarrow> cb)"

text \<open>breaker.go: \<open>onFailure\<close>.\<close>

definition onFailure :: "CircuitBreaker \<Rightarrow> State \<Rightarrow> Time \<Rightarrow> CircuitBreaker" where
  "onFailure cb st now =
     (case st of
        StateClosed \<Rightarrow>
          (let cb1 = cb\<lparr>counts := (counts cb)\<lparr>TotalFailures := TotalFailures (counts cb) + 1,
                        ConsecutiveFailures := ConsecutiveFailures (counts cb) + 1,
                        ConsecutiveSuccesses := 0\<rparr>\<rparr>
           in if readyToTrip cb1 (counts cb1) then setState cb1 StateOpen now else cb1)
      | StateHalfOpen \<Rightarrow> setState cb StateOpen now
      | StateOpen \<Rightarrow> cb)"

text \<open>breaker.go: \<open>beforeRequest\<close>; the pair (generation, error) and the breaker left behind.\<close>

definition beforeRequest :: "CircuitBreaker \<Rightarrow> Time \<Rightarrow> (64 word \<times> error option) \<times> CircuitBreaker" where
  "beforeRequest cb now =
     (case currentState cb now of
        ((st, gen), cb1) \<Rightarrow>
          if st = StateOpen then ((gen, Some ErrCircuitOpen), cb1)
          else if st = StateHalfOpen \<and> Requests (counts cb1) \<ge> maxRequests cb1
          then ((gen, Some ErrTooManyRequests), cb1)
          else ((gen, None),
                cb1\<lparr>counts := (counts cb1)\<lparr>Requests := Requests (counts cb1) + 1\<rparr>\<rparr>))"

text \<open>breaker.go: \<open>afterRequest\<close>.\<close>

definition afterRequest :: "CircuitBreaker \<Rightarrow> 64 word \<Rightarrow> bool \<Rightarrow> Time \<Rightarrow> CircuitBreaker" where
  "afterRequest cb before success now =
     (case currentState cb now of
        ((st, gen), cb1) \<Rightarrow>
          if gen \<noteq> before then cb1
          else if success then onSuccess cb1 st now
          else onFailure cb1 st now)"

text \<open>
  breaker.go: \<open>New\<close>.  The struct literal leaves \<open>state\<close>, \<open>generation\<close>, \<open>counts\<close> and
  \<open>expiry\<close> at their zero values; \<open>config.IsSuccessful\<close> is not read.
\<close>

definition New :: "string \<Rightarrow> Config \<Rightarrow> Time \<Rightarrow> CircuitBreaker" where
  "New nm config now =
     toNewGeneration
       \<lparr>name = nm,
        maxRequests = (if MaxRequests config = 0 then 1 else MaxRequests config),
        interval = Interval config,
        timeout = (if Timeout config = 0 then 60 * Second else Timeout config),
        readyToTrip = (case ReadyToTrip config of
                         None \<Rightarrow> (\<lambda>c. ConsecutiveFailures c > 5)
                       | Some f \<Rightarrow> f),
        onStateChange = OnStateChange config,
        state = StateClosed,
        generation = 0,
        counts = Counts_zero,
        expiry = 0,
        notified = []\<rparr> now"

text \<open>
  breaker.go: \<open>Execute\<close>.  \<open>w\<close> is how the work \<open>fn\<close> ends, \<open>t1\<close> the instant read by
  \<open>beforeRequest\<close> and \<open>t2\<close> the instant read by \<open>afterRequest\<close>.  A rejected call does
  not run the work; a panic reaches the deferred handler, which reports a failure and
  panics again.
\<close>

definition Execute :: "CircuitBreaker \<Rightarrow> work_end \<Rightarrow> Time \<Rightarrow> Time \<Rightarrow> exec_result \<times> CircuitBreaker" where
  "Execute cb w t1 t2 =
     (case beforeRequest cb t1 of
        ((gen, Some err), cb1) \<Rightarrow> (Returned (Some err), cb1)
      | ((gen, None), cb1) \<Rightarrow>
          (case w of
             Panics \<Rightarrow> (Repanicked, afterRequest cb1 gen False t2)
           | Returns err \<Rightarrow> (Returned err, afterRequest cb1 gen (err = None) t2)))"

text \<open>breaker.go: \<open>State\<close> and \<open>Counts\<close>, the two inspection methods.\<close>

definition State_of :: "CircuitBreaker \<Rightarrow> Time \<Rightarrow> State \<times> CircuitBreaker" where
  "State_of cb now = (case currentState cb now of ((st, gen), cb1) \<Rightarrow> (st, cb1))"

definition Counts_of :: "CircuitBreaker \<Rightarrow> Counts \<times> CircuitBreaker" where
  "Counts_of cb = (counts cb, cb)"

section \<open>Concrete breakers used as test inputs\<close>

text \<open>
  A configuration that trips on the first failure, with a cool-off of 100 ms, a probe budget
  of three and a notifier; the breaker it gives after one failed call at instant 0; and the
  same breaker once \<open>State()\<close> has been asked just after the cool-off.
\<close>

definition cfg_trip1 :: Config where
  "cfg_trip1 = \<lparr>MaxRequests = 3, Interval = 0, Timeout = 100 * Millisecond,
     ReadyToTrip = Some (\<lambda>c. ConsecutiveFailures c \<ge> 1),
     OnStateChange = Some (\<lambda>n a b. ()), IsSuccessful = None\<rparr>"

definition open_breaker :: CircuitBreaker where
  "open_breaker =
     snd (Execute (New ''svc'' cfg_trip1 0) (Returns (Some (WorkError ''boom''))) 0 0)"

definition half_open_breaker :: CircuitBreaker where
  "half_open_breaker = snd (State_of open_breaker (100 * Millisecond + 1))"

text \<open>
  A configuration with a periodic reset every second and otherwise the defaults; one whose
  success classifier accepts every result; the zero value \<open>Config{}\<close>; a breaker with one admitted invocation in flight,
  before and after a failed call has tripped it; and a breaker with a periodic reset and one
  invocation in flight.
\<close>

definition cfg_interval :: Config where
  "cfg_interval = \<lparr>MaxRequests = 0, Interval = 1 * Second, Timeout = 0,
     ReadyToTrip = None, OnStateChange = Some (\<lambda>n a b. ()), IsSuccessful = None\<rparr>"

definition cfg_lenient :: Config where
  "cfg_lenient = \<lparr>MaxRequests = 0, Interval = 0, Timeout = 0,
     ReadyToTrip = None, OnStateChange = None, IsSuccessful = Some (\<lambda>err. True)\<rparr>"

definition cfg_default :: Config where
  "cfg_default = \<lparr>MaxRequests = 0, Interval = 0, Timeout = 0,
     ReadyToTrip = None, OnStateChange = None, IsSuccessful = None\<rparr>"

definition busy_breaker :: CircuitBreaker where
  "busy_breaker = snd (beforeRequest (New ''svc'' cfg_trip1 0) 0)"

definition tripped_busy_breaker :: CircuitBreaker where
  "tripped_busy_breaker =
     snd (Execute busy_breaker (Returns (Some (WorkError ''boom''))) 0 0)"

definition rolling_breaker :: CircuitBreaker where
  "rolling_breaker = snd (beforeRequest (New ''svc'' cfg_interval 0) 0)"


section \<open>Cancellable execution\<close>

text \<open>
  context.go: \<open>ExecuteWithContext\<close>.  The work runs in its own goroutine while the caller
  waits in a \<open>select\<close> on \<open>ctx.Done()\<close> and on the buffered channel \<open>done\<close>.  A run is
  described by which of the two the \<open>select\<close> takes and by how the work ends:
  \<open>TokenFirst cause w\<close> is a run in which the token fires first, \<open>cause\<close> is \<open>ctx.Err()\<close> and
  \<open>w\<close> is how the work ends later, in the background; \<open>WorkFirst w\<close> is a run in which the
  work ends first.  The paths that call \<open>afterRequest\<close> are: the \<open>ctx.Done()\<close> case of the
  \<open>select\<close>, the \<open>done\<close> case of the \<open>select\<close>, and the deferred \<open>recover\<close> handler of the
  goroutine, which runs whenever the work panics, reports a failure and panics again.  A
  result sent to \<open>done\<close> after the token has fired stays in the channel.  \<open>t1\<close> is the instant
  of the admission, \<open>t2\<close> and \<open>t3\<close> are the instants read by the first and the second call of
  \<open>afterRequest\<close>.  The third component of the result counts the calls of \<open>afterRequest\<close>.
\<close>

datatype race = TokenFirst error work_end | WorkFirst work_end

definition ExecuteWithContext ::
  "CircuitBreaker \<Rightarrow> race \<Rightarrow> Time \<Rightarrow> Time \<Rightarrow> Time \<Rightarrow> exec_result \<times> CircuitBreaker \<times> nat" where
  "ExecuteWithContext cb r t1 t2 t3 =
     (case beforeRequest cb t1 of
        ((gen, Some err), cb1) \<Rightarrow> (Returned (Some err), cb1, 0)
      | ((gen, None), cb1) \<Rightarrow>
          (case r of
             WorkFirst (Returns err) \<Rightarrow>
               (Returned err, afterRequest cb1 gen (err = None) t2, 1)
           | WorkFirst Panics \<Rightarrow>
               (Repanicked, afterRequest cb1 gen False t2, 1)
           | TokenFirst cause (Returns err) \<Rightarrow>
               (Returned (Some cause), afterRequest cb1 gen False t2, 1)
           | TokenFirst cause Panics \<Rightarrow>
               (Returned (Some cause),
                afterRequest (afterRequest cb1 gen False t2) gen False t3, 2)))"

section \<open>Sliding window\<close>

text \<open>
  sliding\_window.go.  \<open>windowCounts\<close> has the same field names as \<open>Bucket\<close> in the source;
  here they carry the prefix \<open>total\<close>.  The field \<open>size\<close> is \<open>window_size\<close>.  The slice of
  bucket pointers is a list of buckets, oldest first.
\<close>

record Bucket =
  startTime :: Time
  requests :: "32 word"
  successes :: "32 word"
  failures :: "32 word"

record windowCounts =
  total_requests :: "32 word"
  total_successes :: "32 word"
  total_failures :: "32 word"

record SlidingWindow =
  window_size :: Duration
  buckets :: "Bucket list"
  numBucks :: int
  total :: windowCounts

text \<open>The three subtractions \<open>sw.total.x -= bucket.x\<close>, which wrap around below zero.\<close>

definition subtract_bucket :: "windowCounts \<Rightarrow> Bucket \<Rightarrow> windowCounts" where
  "subtract_bucket tot b =
     \<lparr>total_requests = total_requests tot - requests b,
      total_successes = total_successes tot - successes b,
      total_failures = total_failures tot - failures b\<rparr>"

definition NewSlidingWindow :: "Duration \<Rightarrow> int \<Rightarrow> SlidingWindow" where
  "NewSlidingWindow sz numBuckets =
     \<lparr>window_size = (if sz \<le> 0 then 10 * Second else sz),
      buckets = [],
      numBucks = (if numBuckets \<le> 0 then 10 else numBuckets),
      total = \<lparr>total_requests = 0, total_successes = 0, total_failures = 0\<rparr>\<rparr>"

text \<open>\<open>expire\<close>: the loop stops at the first bucket that starts after \<open>windowStart\<close>; the
  buckets before it are subtracted from the total and cut off the slice.\<close>

fun expire_loop :: "Time \<Rightarrow> Bucket list \<Rightarrow> windowCounts \<Rightarrow> Bucket list \<times> windowCounts" where
  "expire_loop windowStart [] tot = ([], tot)"
| "expire_loop windowStart (b # bs) tot =
     (if windowStart < startTime b then (b # bs, tot)
      else expire_loop windowStart bs (subtract_bucket tot b))"

definition expire :: "SlidingWindow \<Rightarrow> Time \<Rightarrow> SlidingWindow" where
  "expire sw now =
     (case expire_loop (now - window_size sw) (buckets sw) (total sw) of
        (bs, tot) \<Rightarrow> sw\<lparr>buckets := bs, total := tot\<rparr>)"

text \<open>\<open>expireReadOnly\<close>: the same loop, writing to \<open>sw.total\<close>, and the slice is kept.\<close>

fun expireReadOnly_loop :: "Time \<Rightarrow> Bucket list \<Rightarrow> windowCounts \<Rightarrow> windowCounts" where
  "expireReadOnly_loop windowStart [] tot = tot"
| "expireReadOnly_loop windowStart (b # bs) tot =
     (if windowStart < startTime b then tot
      else expireReadOnly_loop windowStart bs (subtract_bucket tot b))"

definition expireReadOnly :: "SlidingWindow \<Rightarrow> Time \<Rightarrow> SlidingWindow" where
  "expireReadOnly sw now =
     sw\<lparr>total := expireReadOnly_loop (now - window_size sw) (buckets sw) (total sw)\<rparr>"

text \<open>\<open>GetCounts\<close>: the triple returned and the window left behind.\<close>

definition GetCounts ::
  "SlidingWindow \<Rightarrow> Time \<Rightarrow> (32 word \<times> 32 word \<times> 32 word) \<times> SlidingWindow" where
  "GetCounts sw now =
     (let sw1 = expireReadOnly sw now
      in ((total_requests (total sw1), total_successes (total sw1), total_failures (total sw1)),
          sw1))"

text \<open>\<open>time.Time.Truncate\<close>: rounds down to a multiple of \<open>d\<close> since the zero time, and
  returns \<open>t\<close> when \<open>d \<le> 0\<close>.  Go's integer division truncates towards zero.\<close>

definition Truncate :: "Time \<Rightarrow> Duration \<Rightarrow> Time" where
  "Truncate t d = (if d \<le> 0 then t else t - t mod d)"

definition go_div :: "int \<Rightarrow> int \<Rightarrow> int" where
  "go_div a b = sgn a * sgn b * (\<bar>a\<bar> div \<bar>b\<bar>)"

text \<open>
  \<open>getCurrentBucket\<close>: the window it leaves behind; the bucket it returns is the last one of
  the list (\<open>NewSlidingWindow\<close> never leaves \<open>numBucks\<close> below 1, so the bucket just appended is
  not the one removed).
\<close>

definition getCurrentBucket :: "SlidingWindow \<Rightarrow> Time \<Rightarrow> SlidingWindow" where
  "getCurrentBucket sw now =
     (let bucketDuration = go_div (window_size sw) (numBucks sw);
          bucketStart = Truncate now bucketDuration
      in if buckets sw \<noteq> [] \<and> startTime (last (buckets sw)) = bucketStart then sw
         else
           let sw1 = sw\<lparr>buckets := buckets sw @
                       [\<lparr>startTime = bucketStart, requests = 0, successes = 0, failures = 0\<rparr>]\<rparr>
           in if numBucks sw1 < int (length (buckets sw1))
              then sw1\<lparr>total := subtract_bucket (total sw1) (hd (buckets sw1)),
                       buckets := tl (buckets sw1)\<rparr>
              else sw1)"

text \<open>\<open>Record\<close>, with the instant \<open>now\<close> it reads.\<close>

definition Record :: "SlidingWindow \<Rightarrow> bool \<Rightarrow> Time \<Rightarrow> SlidingWindow" where
  "Record sw success now =
     (let sw1 = getCurrentBucket (expire sw now) now;
          b = last (buckets sw1);
          b1 = (if success
                then b\<lparr>requests := requests b + 1, successes := successes b + 1\<rparr>
                else b\<lparr>requests := requests b + 1, failures := failures b + 1\<rparr>);
          tot = total sw1;
          tot1 = (if success
                  then tot\<lparr>total_requests := total_requests tot + 1,
                           total_successes := total_successes tot + 1\<rparr>
                  else tot\<lparr>total_requests := total_requests tot + 1,
                           total_failures := total_failures tot + 1\<rparr>)
      in sw1\<lparr>buckets := butlast (buckets sw1) @ [b1], total := tot1\<rparr>)"

text \<open>A window of ten seconds in ten buckets with one success recorded at 5.3 s.\<close>

definition window_one :: SlidingWindow where
  "window_one = Record (NewSlidingWindow (10 * Second) 10) True (5300 * Millisecond)"

section \<open>Slow-call detector\<close>

text \<open>
  context.go: \<open>SlowCallDetector\<close>.  A \<open>float64\<close> is read as the real number it denotes, and
  the conversion of a \<open>uint32\<close> to \<open>float64\<close> is exact.  The \<open>float64\<close> division is the
  parameter \<open>fdiv\<close> of the two functions that use it.
\<close>

record SlowCallConfig =
  SlowCallDuration :: Duration
  SlowCallRateThreshold :: real

record SlowCallDetector =
  config :: SlowCallConfig
  slowCalls :: "32 word"
  totalCalls :: "32 word"

definition NewSlowCallDetector :: "SlowCallConfig \<Rightarrow> SlowCallDetector" where
  "NewSlowCallDetector cfg =
     \<lparr>config = \<lparr>SlowCallDuration =
                   (if SlowCallDuration cfg = 0 then 5 * Second else SlowCallDuration cfg),
                 SlowCallRateThreshold =
                   (if SlowCallRateThreshold cfg = 0 then 1 / 2 else SlowCallRateThreshold cfg)\<rparr>,
      slowCalls = 0,
      totalCalls = 0\<rparr>"

text \<open>\<open>SlowCallDetector.Record\<close>.\<close>

definition Record_call :: "SlowCallDetector \<Rightarrow> Duration \<Rightarrow> SlowCallDetector" where
  "Record_call d duration =
     (let d1 = d\<lparr>totalCalls := totalCalls d + 1\<rparr>
      in if SlowCallDuration (config d1) < duration
         then d1\<lparr>slowCalls := slowCalls d1 + 1\<rparr> else d1)"

definition SlowCallRate :: "(real \<Rightarrow> real \<Rightarrow> real) \<Rightarrow> SlowCallDetector \<Rightarrow> real" where
  "SlowCallRate fdiv d =
     (if totalCalls d = 0 then 0
      else fdiv (real (unat (slowCalls d))) (real (unat (totalCalls d))))"

definition ShouldTrip :: "(real \<Rightarrow> real \<Rightarrow> real) \<Rightarrow> SlowCallDetector \<Rightarrow> bool" where
  "ShouldTrip fdiv d \<longleftrightarrow> SlowCallRateThreshold (config d) \<le> SlowCallRate fdiv d"

text \<open>A sequence of calls of \<open>Record\<close>, one per duration.\<close>

fun record_calls :: "SlowCallDetector \<Rightarrow> Duration list \<Rightarrow> SlowCallDetector" where
  "record_calls d [] = d"
| "record_calls d (x # xs) = record_calls (Record_call d x) xs"

text \<open>The detector of the package's tests: calls over 100 ms are slow, the rate threshold
  is one half.\<close>

definition detector_100ms :: SlowCallDetector where
  "detector_100ms =
     NewSlowCallDetector \<lparr>SlowCallDuration = 100 * Millisecond, SlowCallRateThreshold = 1 / 2\<rparr>"

section \<open>The breaker under concurrent callers\<close>

text \<open>
  \<open>beforeRequest\<close>, \<open>afterRequest\<close>, \<open>State\<close> and \<open>Counts\<close> each run under the breaker's mutex,
  so a run of the breaker under any number of concurrent callers is a sequence of these
  four operations.  The system state pairs the breaker with the generation tokens of the
  invocations that have been admitted and have not completed yet.  \<open>Admit\<close> is the
  \<open>beforeRequest\<close> of some caller; \<open>Complete i success\<close> is the one call of \<open>afterRequest\<close> that
  \<open>Execute\<close> makes for the \<open>i\<close>-th invocation in flight, with the token that invocation was
  given; \<open>AskState\<close> and \<open>AskCounts\<close> are the two inspection methods.
\<close>

record System =
  breaker :: CircuitBreaker
  inflight :: "64 word list"

datatype Op = Admit Time | Complete nat bool Time | AskState Time | AskCounts

fun step :: "System \<Rightarrow> Op \<Rightarrow> System" where
  "step s (Admit now) =
     (case beforeRequest (breaker s) now of
        ((gen, None), cb1) \<Rightarrow> \<lparr>breaker = cb1, inflight = inflight s @ [gen]\<rparr>
      | ((gen, Some err), cb1) \<Rightarrow> \<lparr>breaker = cb1, inflight = inflight s\<rparr>)"
| "step s (Complete i success now) =
     (if i < length (inflight s)
      then \<lparr>breaker = afterRequest (breaker s) (inflight s ! i) success now,
            inflight = take i (inflight s) @ drop (Suc i) (inflight s)\<rparr>
      else s)"
| "step s (AskState now) = \<lparr>breaker = snd (State_of (breaker s) now), inflight = inflight s\<rparr>"
| "step s AskCounts = \<lparr>breaker = snd (Counts_of (breaker s)), inflight = inflight s\<rparr>"

definition run :: "System \<Rightarrow> Op list \<Rightarrow> System" where
  "run s ops = foldl step s ops"

definition start :: "string \<Rightarrow> Config \<Rightarrow> Time \<Rightarrow> System" where
  "start nm conf now = \<lparr>breaker = New nm conf now, inflight = []\<rparr>"

text \<open>The two invariants of \<open>Counts\<close>, the tallies read as natural numbers.\<close>

definition Counts_ok :: "Counts \<Rightarrow> bool" where
  "Counts_ok c \<longleftrightarrow>
     unat (TotalSuccesses c) + unat (TotalFailures c) \<le> unat (Requests c) \<and>
     (ConsecutiveSuccesses c = 0 \<or> ConsecutiveFailures c = 0)"

text \<open>
  The bookkeeping of a run.  \<open>admitted_after s a op\<close> is the number of admissions granted in
  the generation that is current after the operation \<open>op\<close>, when \<open>a\<close> were granted in the
  generation current before it: a step that leaves the generation as it was keeps the count,
  a step that enters a new generation starts again from zero, and a granted admission adds
  one (\<open>beforeRequest\<close> increments \<open>Requests\<close> after its lazy transition).  \<open>tally\<close> runs a
  sequence of operations and returns that count together with the number of generations
  entered so far: each step adds the distance between the generation after it and the
  generation before it.
\<close>

definition admitted_after :: "System \<Rightarrow> nat \<Rightarrow> Op \<Rightarrow> nat" where
  "admitted_after s a op =
     (let a0 = (if generation (breaker (step s op)) = generation (breaker s) then a else 0)
      in case op of
           Admit now \<Rightarrow>
             (case snd (fst (beforeRequest (breaker s) now)) of
                None \<Rightarrow> a0 + 1
              | Some err \<Rightarrow> a0)
         | Complete i success now \<Rightarrow> a0
         | AskState now \<Rightarrow> a0
         | AskCounts \<Rightarrow> a0)"

fun tally :: "System \<Rightarrow> nat \<Rightarrow> nat \<Rightarrow> Op list \<Rightarrow> nat \<times> nat" where
  "tally s a n [] = (a, n)"
| "tally s a n (op # ops) =
     tally (step s op) (admitted_after s a op)
       (n + unat (generation (breaker (step s op)) - generation (breaker s))) ops"

text \<open>For a breaker built by \<open>New\<close>, which enters generation 1 with no admission yet.\<close>

definition admitted_in_generation :: "string \<Rightarrow> Config \<Rightarrow> Time \<Rightarrow> Op list \<Rightarrow> nat" where
  "admitted_in_generation nm conf t0 ops = fst (tally (start nm conf t0) 0 1 ops)"

definition generations_entered :: "string \<Rightarrow> Config \<Rightarrow> Time \<Rightarrow> Op list \<Rightarrow> nat" where
  "generations_entered nm conf t0 ops = snd (tally (start nm conf t0) 0 1 ops)"

text \<open>
  The invariant behind the two invariants of \<open>Counts\<close>: the generation is at most \<open>m\<close>, no
  token in flight is ahead of the generation, and, as long as the \<open>a\<close> admissions granted in
  the current generation are fewer than \<open>2^32\<close>, \<open>Requests\<close> is at most \<open>a\<close> and the outcomes
  already counted plus the invocations still in flight in the current generation do not
  exceed \<open>Requests\<close>.
\<close>

definition tracked :: "nat \<Rightarrow> nat \<Rightarrow> CircuitBreaker \<Rightarrow> 64 word list \<Rightarrow> bool" where
  "tracked m a cb fl \<longleftrightarrow>
     unat (generation cb) \<le> m \<and>
     (\<forall>g \<in> set fl. unat g \<le> unat (generation cb)) \<and>
     (a < 4294967296 \<longrightarrow>
        unat (Requests (counts cb)) \<le> a \<and>
        unat (TotalSuccesses (counts cb)) + unat (TotalFailures (counts cb)) +
          count_list fl (generation cb) \<le> unat (Requests (counts cb))) \<and>
     (ConsecutiveSuccesses (counts cb) = 0 \<or> ConsecutiveFailures (counts cb) = 0)"

text \<open>An operation on the breaker either leaves the generation as it is and keeps what is
  tracked, or moves to the next generation, where the tracking starts from zero.\<close>

definition advances :: "CircuitBreaker \<Rightarrow> CircuitBreaker \<Rightarrow> bool" where
  "advances cb cb' \<longleftrightarrow>
     generation cb' = generation cb + 1 \<and>
     (\<forall>m a fl. tracked m a cb fl \<longrightarrow> m < 18446744073709551615 \<longrightarrow> tracked (Suc m) 0 cb' fl)"

text \<open>One call of \<open>Execute\<close> whose work succeeds, as the two operations it consists of.\<close>

definition one_success :: "Op list" where
  "one_success = [Admit 0, Complete 0 True 0]"

text \<open>The second invariant alone, with no bound on the run.\<close>

definition exclusive :: "CircuitBreaker \<Rightarrow> bool" where
  "exclusive cb \<longleftrightarrow>
     ConsecutiveSuccesses (counts cb) = 0 \<or> ConsecutiveFailures (counts cb) = 0"

text \<open>The Counts of a breaker built by \<open>New\<close> after a sequence of operations.\<close>

definition Counts_after :: "string \<Rightarrow> Config \<Rightarrow> Time \<Rightarrow> Op list \<Rightarrow> Counts" where
  "Counts_after nm conf t0 ops = counts (breaker (run (start nm conf t0) ops))"

text \<open>Three successful calls, then two failing ones.\<close>

definition scenario_S4 :: "Op list" where
  "scenario_S4 =
     [Admit 1, Complete 0 True 2, Admit 3, Complete 0 True 4, Admit 5, Complete 0 True 6,
      Admit 7, Complete 0 False 8, Admit 9, Complete 0 False 10]"

section \<open>Basic facts about the operations\<close>

lemmas cb_defs = New_def toNewGeneration_def setState_def currentState_def onSuccess_def
  onFailure_def beforeRequest_def afterRequest_def Execute_def State_of_def Counts_of_def
  Counts_zero_def Second_def Millisecond_def Let_def

lemma open_breaker_fields:
  "state open_breaker = StateOpen" "expiry open_breaker = 100000000"
  "generation open_breaker = 2" "counts open_breaker = Counts_zero"
  "maxRequests open_breaker = 3" "notified open_breaker = [(''svc'', StateClosed, StateOpen)]"
  by (simp_all add: open_breaker_def cfg_trip1_def cb_defs)

lemma half_open_breaker_fields:
  "state half_open_breaker = StateHalfOpen" "expiry half_open_breaker = 0"
  "generation half_open_breaker = 3" "counts half_open_breaker = Counts_zero"
  "maxRequests half_open_breaker = 3"
  by (simp_all add: half_open_breaker_def open_breaker_def cfg_trip1_def cb_defs)

lemma currentState_HalfOpen:
  "state cb = StateHalfOpen \<Longrightarrow> currentState cb now = ((StateHalfOpen, generation cb), cb)"
  by (simp add: currentState_def)

lemma beforeRequest_HalfOpen:
  "state cb = StateHalfOpen \<Longrightarrow>
     beforeRequest cb now =
       (if maxRequests cb \<le> Requests (counts cb)
        then ((generation cb, Some ErrTooManyRequests), cb)
        else ((generation cb, None),
              cb\<lparr>counts := (counts cb)\<lparr>Requests := Requests (counts cb) + 1\<rparr>\<rparr>))"
  by (simp add: beforeRequest_def currentState_HalfOpen)

lemma currentState_Open_wait:
  "state cb = StateOpen \<Longrightarrow> \<not> expiry cb < now \<Longrightarrow>
     currentState cb now = ((StateOpen, generation cb), cb)"
  by (simp add: currentState_def)

lemma currentState_Open_due:
  "state cb = StateOpen \<Longrightarrow> expiry cb < now \<Longrightarrow>
     currentState cb now =
       ((StateHalfOpen, generation cb + 1), setState cb StateHalfOpen now)"
  by (simp add: currentState_def setState_def toNewGeneration_def Let_def split: option.splits)

lemma currentState_Closed_keep:
  "state cb = StateClosed \<Longrightarrow> expiry cb = 0 \<or> \<not> expiry cb < now \<Longrightarrow>
     currentState cb now = ((StateClosed, generation cb), cb)"
  by (auto simp add: currentState_def)

lemma currentState_Closed_roll:
  "state cb = StateClosed \<Longrightarrow> expiry cb \<noteq> 0 \<Longrightarrow> expiry cb < now \<Longrightarrow>
     currentState cb now = ((StateClosed, generation cb + 1), toNewGeneration cb now)"
  by (simp add: currentState_def toNewGeneration_def)

lemma setState_fields:
  "state cb \<noteq> st \<Longrightarrow> state (setState cb st now) = st"
  "state cb \<noteq> st \<Longrightarrow> generation (setState cb st now) = generation cb + 1"
  "state cb \<noteq> st \<Longrightarrow> counts (setState cb st now) = Counts_zero"
  "maxRequests (setState cb st now) = maxRequests cb"
  "state cb \<noteq> st \<Longrightarrow> expiry (setState cb st now) =
     (case st of StateClosed \<Rightarrow> if interval cb = 0 then 0 else now + interval cb
      | StateOpen \<Rightarrow> now + timeout cb | StateHalfOpen \<Rightarrow> 0)"
  "state cb \<noteq> st \<Longrightarrow> notified (setState cb st now) =
     (case onStateChange cb of None \<Rightarrow> notified cb
      | Some f \<Rightarrow> notified cb @ [(name cb, state cb, st)])"
  by (simp_all add: setState_def toNewGeneration_def Let_def split: option.splits State.splits)

lemma New_maxRequests: "maxRequests (New nm conf now) \<noteq> 0"
  by (simp add: New_def toNewGeneration_def)

lemma toNewGeneration_maxRequests [simp]:
  "maxRequests (toNewGeneration cb now) = maxRequests cb"
  by (simp add: toNewGeneration_def)

lemma setState_maxRequests [simp]: "maxRequests (setState cb st now) = maxRequests cb"
  by (simp add: setState_def Let_def toNewGeneration_def split: option.splits)

lemma currentState_maxRequests [simp]:
  "maxRequests (snd (currentState cb now)) = maxRequests cb"
  by (simp add: currentState_def Let_def split: State.splits)

lemma beforeRequest_maxRequests [simp]:
  "maxRequests (snd (beforeRequest cb now)) = maxRequests cb"
proof -
  obtain st g cb1 where c: "currentState cb now = ((st, g), cb1)"
    by (metis prod.exhaust)
  have "maxRequests cb1 = maxRequests cb"
    using currentState_maxRequests [of cb now] by (simp add: c)
  then show ?thesis by (simp add: beforeRequest_def c)
qed

lemma afterRequest_maxRequests [simp]:
  "maxRequests (afterRequest cb g ok now) = maxRequests cb"
proof -
  obtain st g' cb1 where c: "currentState cb now = ((st, g'), cb1)"
    by (metis prod.exhaust)
  have "maxRequests cb1 = maxRequests cb"
    using currentState_maxRequests [of cb now] by (simp add: c)
  then show ?thesis
    by (simp add: afterRequest_def c onSuccess_def onFailure_def Let_def split: State.splits)
qed

lemma tripped_busy_breaker_fields:
  "fst (beforeRequest (New ''svc'' cfg_trip1 0) 0) = (1, None)"
  "state tripped_busy_breaker = StateOpen" "generation tripped_busy_breaker = 2"
  "expiry tripped_busy_breaker = 100000000"
  "counts tripped_busy_breaker = Counts_zero"
  "notified tripped_busy_breaker = [(''svc'', StateClosed, StateOpen)]"
  "onStateChange tripped_busy_breaker \<noteq> None" "name tripped_busy_breaker = ''svc''"
  by (simp_all add: tripped_busy_breaker_def busy_breaker_def cfg_trip1_def cb_defs)

lemma rolling_breaker_fields:
  "fst (beforeRequest (New ''svc'' cfg_interval 0) 0) = (1, None)"
  "state rolling_breaker = StateClosed" "generation rolling_breaker = 1"
  "expiry rolling_breaker = 1000000000"
  "counts rolling_breaker = Counts_zero\<lparr>Requests := 1\<rparr>"
  by (simp_all add: rolling_breaker_def cfg_interval_def cb_defs)

lemma New_ignores_IsSuccessful:
  "New nm (conf\<lparr>IsSuccessful := f\<rparr>) now = New nm conf now"
  by (simp add: New_def)

lemma New_fields:
  "state (New nm conf now) = StateClosed"
  "generation (New nm conf now) = 1"
  "counts (New nm conf now) = Counts_zero"
  "expiry (New nm conf now) = (if Interval conf = 0 then 0 else now + Interval conf)"
  "notified (New nm conf now) = []"
  "readyToTrip (New nm conf now) =
     (case ReadyToTrip conf of None \<Rightarrow> (\<lambda>c. 5 < ConsecutiveFailures c) | Some f \<Rightarrow> f)"
  by (simp_all add: New_def toNewGeneration_def)






lemma cfg_default_fields:
  "ReadyToTrip cfg_default = None" "Interval cfg_default = 0"
  by (simp_all add: cfg_default_def)

lemma window_one_fields:
  "buckets window_one = [\<lparr>startTime = 5000000000, requests = 1, successes = 1, failures = 0\<rparr>]"
  "total window_one = \<lparr>total_requests = 1, total_successes = 1, total_failures = 0\<rparr>"
  "window_size window_one = 10000000000"
  by (simp_all add: window_one_def Record_def NewSlidingWindow_def expire_def getCurrentBucket_def
      Truncate_def go_div_def Second_def Millisecond_def Let_def)

lemma record_calls_totals:
  "totalCalls (record_calls d xs) = totalCalls d + of_nat (length xs) \<and>
   slowCalls (record_calls d xs) =
     slowCalls d + of_nat (length (filter (\<lambda>x. SlowCallDuration (config d) < x) xs)) \<and>
   config (record_calls d xs) = config d"
  by (induction xs arbitrary: d) (simp_all add: Record_call_def Let_def)

lemma unat_inc32: "unat (x::32 word) < 4294967295 \<Longrightarrow> unat (x + 1) = Suc (unat x)"
  using unat_add_lem [of x 1] by simp

lemma unat_inc64: "unat (x::64 word) < 18446744073709551615 \<Longrightarrow> unat (x + 1) = Suc (unat x)"
  using unat_add_lem [of x 1] by simp

lemma unat_lt32: "unat (x::32 word) < 4294967296"
  using unsigned_less [of x, where ?'a = nat] by simp

lemma count_list_remove:
  "i < length fl \<Longrightarrow>
     count_list (take i fl @ drop (Suc i) fl) g =
       count_list fl g - (if fl ! i = g then 1 else 0)"
proof -
  assume i: "i < length fl"
  have "count_list fl g = count_list (take i fl @ fl ! i # drop (Suc i) fl) g"
    using id_take_nth_drop [OF i] by simp
  then show ?thesis by simp
qed

lemma count_list_nth_pos: "i < length fl \<Longrightarrow> 0 < count_list fl (fl ! i)"
  by (metis count_list_0_iff gr0I nth_mem)

lemma set_remove_subset: "set (take i fl @ drop (Suc i) fl) \<subseteq> set fl"
  by (auto dest: in_set_takeD in_set_dropD)

lemma Requests_toNewGeneration [simp]: "Requests (counts (toNewGeneration cb now)) = 0"
  by (simp add: toNewGeneration_def Counts_zero_def)

lemma Requests_setState:
  "unat (Requests (counts (setState cb st now))) \<le> unat (Requests (counts cb))"
  by (simp add: setState_def Let_def split: option.splits)

lemma currentState_fst:
  "fst (currentState cb now) =
     (state (snd (currentState cb now)), generation (snd (currentState cb now)))"
  by (simp add: currentState_def Let_def)

lemma currentState_cases:
  "snd (currentState cb now) = cb \<or>
   snd (currentState cb now) = toNewGeneration cb now \<or>
   snd (currentState cb now) = setState cb StateHalfOpen now"
  by (cases "state cb") (simp_all add: currentState_def Let_def)

lemma Requests_currentState:
  "unat (Requests (counts (snd (currentState cb now)))) \<le> unat (Requests (counts cb))"
  using currentState_cases [of cb now] Requests_setState [of cb StateHalfOpen now]
  by auto

lemma currentState_split:
  obtains st g cb1 where "currentState cb now = ((st, g), cb1)"
    and "st = state cb1" and "g = generation cb1" and "cb1 = snd (currentState cb now)"
proof -
  obtain st g cb1 where c: "currentState cb now = ((st, g), cb1)"
    by (metis prod.exhaust)
  have "st = state cb1" "g = generation cb1" "cb1 = snd (currentState cb now)"
    using currentState_fst [of cb now] by (simp_all add: c)
  with c that show thesis by blast
qed

lemma Requests_onSuccess:
  "unat (Requests (counts (onSuccess cb st now))) \<le> unat (Requests (counts cb))"
  using Requests_setState
    [of "cb\<lparr>counts := (counts cb)\<lparr>TotalSuccesses := TotalSuccesses (counts cb) + 1,
           ConsecutiveSuccesses := ConsecutiveSuccesses (counts cb) + 1,
           ConsecutiveFailures := 0\<rparr>\<rparr>" StateClosed now]
  by (cases st) (simp_all add: onSuccess_def Let_def)

lemma Requests_onFailure:
  "unat (Requests (counts (onFailure cb st now))) \<le> unat (Requests (counts cb))"
  using Requests_setState
    [of "cb\<lparr>counts := (counts cb)\<lparr>TotalFailures := TotalFailures (counts cb) + 1,
           ConsecutiveFailures := ConsecutiveFailures (counts cb) + 1,
           ConsecutiveSuccesses := 0\<rparr>\<rparr>" StateOpen now]
    Requests_setState [of cb StateOpen now]
  by (cases st) (simp_all add: onFailure_def Let_def)

lemma exclusive_setState: "exclusive cb \<Longrightarrow> exclusive (setState cb st now)"
  by (simp add: exclusive_def setState_def toNewGeneration_def Counts_zero_def Let_def
      split: option.splits)

lemma exclusive_currentState: "exclusive cb \<Longrightarrow> exclusive (snd (currentState cb now))"
  using currentState_cases [of cb now] exclusive_setState [of cb StateHalfOpen now]
  by (auto simp add: exclusive_def toNewGeneration_def Counts_zero_def)

lemma exclusive_beforeRequest: "exclusive cb \<Longrightarrow> exclusive (snd (beforeRequest cb now))"
proof -
  assume x: "exclusive cb"
  obtain st g cb1 where c: "currentState cb now = ((st, g), cb1)"
    and cb1: "cb1 = snd (currentState cb now)"
    by (rule currentState_split)
  have "exclusive cb1" unfolding cb1 using x by (rule exclusive_currentState)
  then show ?thesis by (simp add: beforeRequest_def c exclusive_def)
qed

lemma exclusive_onSuccess: "exclusive cb \<Longrightarrow> exclusive (onSuccess cb st now)"
  using exclusive_setState
    [of "cb\<lparr>counts := (counts cb)\<lparr>TotalSuccesses := TotalSuccesses (counts cb) + 1,
           ConsecutiveSuccesses := ConsecutiveSuccesses (counts cb) + 1,
           ConsecutiveFailures := 0\<rparr>\<rparr>" StateClosed now]
  by (cases st) (simp_all add: onSuccess_def Let_def exclusive_def)

lemma exclusive_onFailure: "exclusive cb \<Longrightarrow> exclusive (onFailure cb st now)"
  using exclusive_setState
    [of "cb\<lparr>counts := (counts cb)\<lparr>TotalFailures := TotalFailures (counts cb) + 1,
           ConsecutiveFailures := ConsecutiveFailures (counts cb) + 1,
           ConsecutiveSuccesses := 0\<rparr>\<rparr>" StateOpen now]
    exclusive_setState [of cb StateOpen now]
  by (cases st) (simp_all add: onFailure_def Let_def exclusive_def)

lemma exclusive_afterRequest: "exclusive cb \<Longrightarrow> exclusive (afterRequest cb g ok now)"
proof -
  assume x: "exclusive cb"
  obtain st g' cb1 where c: "currentState cb now = ((st, g'), cb1)"
    and cb1: "cb1 = snd (currentState cb now)"
    by (rule currentState_split)
  have "exclusive cb1" unfolding cb1 using x by (rule exclusive_currentState)
  then show ?thesis
    by (simp add: afterRequest_def c exclusive_onSuccess exclusive_onFailure)
qed

lemma exclusive_step: "exclusive (breaker s) \<Longrightarrow> exclusive (breaker (step s op))"
proof (cases op)
  case (Admit now)
  assume x: "exclusive (breaker s)"
  obtain g e cb' where b: "beforeRequest (breaker s) now = ((g, e), cb')"
    by (metis prod.exhaust)
  show ?thesis
    using exclusive_beforeRequest [OF x, of now] by (cases e) (simp_all add: Admit b)
next
  case (Complete i ok now)
  assume "exclusive (breaker s)"
  then show ?thesis by (simp add: Complete exclusive_afterRequest)
next
  case (AskState now)
  assume x: "exclusive (breaker s)"
  have e: "snd (State_of (breaker s) now) = snd (currentState (breaker s) now)"
    by (simp add: State_of_def split: prod.splits)
  show ?thesis using exclusive_currentState [OF x, of now] by (simp add: AskState e)
next
  case AskCounts
  assume "exclusive (breaker s)"
  then show ?thesis by (simp add: AskCounts Counts_of_def)
qed

lemma exclusive_run: "exclusive (breaker s) \<Longrightarrow> exclusive (breaker (run s ops))"
  unfolding run_def by (induction ops arbitrary: s) (simp_all add: exclusive_step)

lemma exclusive_start: "exclusive (breaker (start nm conf t0))"
  by (simp add: exclusive_def start_def New_fields Counts_zero_def)

lemma run_append: "run s (xs @ ys) = run (run s xs) ys"
  by (simp add: run_def)

lemma one_success_step:
  assumes "state (breaker s) = StateClosed" and "expiry (breaker s) = 0"
    and "inflight s = []"
  shows "state (breaker (run s one_success)) = StateClosed \<and>
         expiry (breaker (run s one_success)) = 0 \<and>
         inflight (run s one_success) = [] \<and>
         Requests (counts (breaker (run s one_success))) =
           Requests (counts (breaker s)) + 1 \<and>
         TotalSuccesses (counts (breaker (run s one_success))) =
           TotalSuccesses (counts (breaker s)) + 1"
  using assms
  by (simp add: run_def one_success_def beforeRequest_def afterRequest_def
      currentState_Closed_keep onSuccess_def)

lemma many_successes:
  assumes "state (breaker s) = StateClosed" and "expiry (breaker s) = 0"
    and "inflight s = []"
  shows "state (breaker (run s (concat (replicate n one_success)))) = StateClosed \<and>
         expiry (breaker (run s (concat (replicate n one_success)))) = 0 \<and>
         inflight (run s (concat (replicate n one_success))) = [] \<and>
         Requests (counts (breaker (run s (concat (replicate n one_success))))) =
           Requests (counts (breaker s)) + of_nat n \<and>
         TotalSuccesses (counts (breaker (run s (concat (replicate n one_success))))) =
           TotalSuccesses (counts (breaker s)) + of_nat n"
  using assms
proof (induction n arbitrary: s)
  case 0
  then show ?case by (simp add: run_def)
next
  case (Suc n)
  note st = one_success_step [OF Suc.prems]
  have "run s (concat (replicate (Suc n) one_success)) =
          run (run s one_success) (concat (replicate n one_success))"
    by (simp add: run_append)
  then show ?case
    using Suc.IH [of "run s one_success"] st by (simp add: add.assoc add.commute)
qed

lemma scenario_S4_counts:
  "Counts_after ''svc'' cfg_default 0 scenario_S4 =
     \<lparr>Requests = 5, TotalSuccesses = 3, TotalFailures = 2,
      ConsecutiveSuccesses = 0, ConsecutiveFailures = 2\<rparr>"
  by (simp add: Counts_after_def scenario_S4_def run_def start_def beforeRequest_def
      afterRequest_def currentState_Closed_keep New_fields cfg_default_fields onSuccess_def
      onFailure_def Let_def Counts_zero_def word_less_nat_alt)

lemma unat_add_le64: "unat (x + y) \<le> unat x + unat (y::64 word)"
  by (simp add: unat_word_ariths)

lemma word_succ_neq: "(x::64 word) + 1 \<noteq> x"
  by simp

lemma tracked_mono:
  "tracked m a cb fl \<Longrightarrow> m \<le> m' \<Longrightarrow> a \<le> a' \<Longrightarrow> tracked m' a' cb fl"
  by (auto simp add: tracked_def)

lemma tracked_rebound:
  "tracked m a cb fl \<Longrightarrow> unat (generation cb) \<le> m' \<Longrightarrow> tracked m' a cb fl"
  by (auto simp add: tracked_def)

lemma tracked_state_upd [simp]: "tracked m a (cb\<lparr>state := st\<rparr>) fl = tracked m a cb fl"
  by (simp add: tracked_def)

lemma tracked_notified_upd [simp]: "tracked m a (cb\<lparr>notified := x\<rparr>) fl = tracked m a cb fl"
  by (simp add: tracked_def)

lemma tracked_remove:
  "tracked m a cb fl \<Longrightarrow> i < length fl \<Longrightarrow> tracked m a cb (take i fl @ drop (Suc i) fl)"
  using set_remove_subset [of i fl]
  by (auto simp add: tracked_def count_list_remove simp del: set_append count_list_append)

lemma tracked_toNewGeneration:
  assumes "tracked m a cb fl" and "m < 18446744073709551615"
  shows "tracked (Suc m) 0 (toNewGeneration cb now) fl"
proof -
  have g: "unat (generation cb + 1) = Suc (unat (generation cb))"
    using assms by (intro unat_inc64) (simp add: tracked_def)
  have "generation cb + 1 \<notin> set fl"
    using assms(1) g by (auto simp add: tracked_def)
  then have "count_list fl (generation cb + 1) = 0" by simp
  then show ?thesis
    using assms(1) g by (auto simp add: tracked_def toNewGeneration_def Counts_zero_def)
qed

lemma generation_toNewGeneration [simp]:
  "generation (toNewGeneration cb now) = generation cb + 1"
  by (simp add: toNewGeneration_def)

lemma setState_cases:
  "setState cb st now = cb \<or>
   generation (setState cb st now) = generation cb + 1 \<and>
   (\<forall>m a fl. tracked m a cb fl \<longrightarrow> m < 18446744073709551615 \<longrightarrow>
      tracked (Suc m) 0 (setState cb st now) fl)"
proof (cases "state cb = st")
  case True
  then show ?thesis by (simp add: setState_def)
next
  case False
  have "\<And>m a fl. tracked m a cb fl \<Longrightarrow> m < 18446744073709551615 \<Longrightarrow>
      tracked (Suc m) 0 (toNewGeneration (cb\<lparr>state := st\<rparr>) now) fl"
    by (rule tracked_toNewGeneration) simp_all
  then show ?thesis
    using False by (simp add: setState_def Let_def split: option.splits)
qed

lemma setState_advances: "setState cb st now = cb \<or> advances cb (setState cb st now)"
  using setState_cases [of cb st now] by (simp add: advances_def)

lemma currentState_advances:
  "snd (currentState cb now) = cb \<or> advances cb (snd (currentState cb now))"
proof -
  have "advances cb (toNewGeneration cb now)"
    by (simp add: advances_def tracked_toNewGeneration)
  then show ?thesis
    using currentState_cases [of cb now] setState_advances [of cb StateHalfOpen now]
    by auto
qed

lemma advancesD:
  "advances cb cb' \<Longrightarrow> tracked m a cb fl \<Longrightarrow> m < 18446744073709551615 \<Longrightarrow>
     tracked (Suc m) 0 cb' fl \<and> generation cb' = generation cb + 1 \<and>
     generation cb' \<noteq> generation cb"
  by (simp add: advances_def)

lemma tracked_admit:
  assumes t: "tracked m a cb fl"
  shows "tracked m (Suc a)
     (cb\<lparr>counts := (counts cb)\<lparr>Requests := Requests (counts cb) + 1\<rparr>\<rparr>)
     (fl @ [generation cb])"
proof (cases "Suc a < 4294967296")
  case True
  then have r: "unat (Requests (counts cb)) < 4294967295"
    using t by (simp add: tracked_def)
  have inc: "unat (Requests (counts cb) + 1) = Suc (unat (Requests (counts cb)))"
    using r by (rule unat_inc32)
  show ?thesis
    using t True inc by (auto simp add: tracked_def)
next
  case False
  then show ?thesis
    using t by (auto simp add: tracked_def)
qed

lemma tracked_currentState:
  assumes t: "tracked m a cb fl" and m: "m < 18446744073709551615"
  shows "tracked (Suc m)
     (if generation (snd (currentState cb now)) = generation cb then a else 0)
     (snd (currentState cb now)) fl"
proof -
  from currentState_advances [of cb now] show ?thesis
  proof
    assume "snd (currentState cb now) = cb"
    then show ?thesis using t by (simp add: tracked_mono)
  next
    assume "advances cb (snd (currentState cb now))"
    from advancesD [OF this t m] show ?thesis by simp
  qed
qed

lemma tracked_beforeRequest:
  assumes t: "tracked m a cb fl" and m: "m < 18446744073709551615"
  shows "case beforeRequest cb now of
           ((g, None), cb') \<Rightarrow>
             tracked (Suc m) (Suc (if generation cb' = generation cb then a else 0)) cb'
               (fl @ [g])
         | ((g, Some e), cb') \<Rightarrow>
             tracked (Suc m) (if generation cb' = generation cb then a else 0) cb' fl"
proof -
  obtain st g cb1 where c: "currentState cb now = ((st, g), cb1)"
    and st: "st = state cb1" and g: "g = generation cb1"
    and cb1: "cb1 = snd (currentState cb now)"
    by (rule currentState_split)
  let ?a0 = "if generation cb1 = generation cb then a else 0"
  have t1: "tracked (Suc m) ?a0 cb1 fl"
    unfolding cb1 using t m by (rule tracked_currentState)
  have adm: "tracked (Suc m) (Suc ?a0)
      (cb1\<lparr>counts := (counts cb1)\<lparr>Requests := Requests (counts cb1) + 1\<rparr>\<rparr>) (fl @ [g])"
    unfolding g using t1 by (rule tracked_admit)
  show ?thesis
    using t1 adm by (simp add: beforeRequest_def c)
qed

lemma tracked_count_success:
  assumes t: "tracked m a cb fl" and i: "i < length fl" and g: "fl ! i = generation cb"
  shows "tracked m a
     (cb\<lparr>counts := (counts cb)\<lparr>TotalSuccesses := TotalSuccesses (counts cb) + 1,
           ConsecutiveSuccesses := ConsecutiveSuccesses (counts cb) + 1,
           ConsecutiveFailures := 0\<rparr>\<rparr>)
     (take i fl @ drop (Suc i) fl)"
proof (cases "a < 4294967296")
  case True
  have p: "0 < count_list fl (generation cb)"
    using count_list_nth_pos [OF i] by (simp add: g)
  have b: "unat (TotalSuccesses (counts cb)) + unat (TotalFailures (counts cb)) +
             count_list fl (generation cb) \<le> unat (Requests (counts cb))"
    using t True by (simp add: tracked_def)
  have "unat (TotalSuccesses (counts cb)) < 4294967295"
    using p b unat_lt32 [of "Requests (counts cb)"] by linarith
  then have inc: "unat (TotalSuccesses (counts cb) + 1) = Suc (unat (TotalSuccesses (counts cb)))"
    by (rule unat_inc32)
  have c: "count_list (take i fl @ drop (Suc i) fl) (generation cb) =
             count_list fl (generation cb) - 1"
    using count_list_remove [OF i, of "generation cb"] by (simp add: g)
  have s: "\<forall>x \<in> set (take i fl @ drop (Suc i) fl). unat x \<le> unat (generation cb)"
    using t set_remove_subset [of i fl] by (auto simp add: tracked_def simp del: set_append)
  show ?thesis
    unfolding tracked_def
    using t p b inc c s by (simp add: tracked_def del: set_append count_list_append)
next
  case False
  have s: "\<forall>x \<in> set (take i fl @ drop (Suc i) fl). unat x \<le> unat (generation cb)"
    using t set_remove_subset [of i fl] by (auto simp add: tracked_def simp del: set_append)
  show ?thesis
    unfolding tracked_def
    using t s False by (simp add: tracked_def del: set_append count_list_append)
qed

lemma tracked_count_failure:
  assumes t: "tracked m a cb fl" and i: "i < length fl" and g: "fl ! i = generation cb"
  shows "tracked m a
     (cb\<lparr>counts := (counts cb)\<lparr>TotalFailures := TotalFailures (counts cb) + 1,
           ConsecutiveFailures := ConsecutiveFailures (counts cb) + 1,
           ConsecutiveSuccesses := 0\<rparr>\<rparr>)
     (take i fl @ drop (Suc i) fl)"
proof (cases "a < 4294967296")
  case True
  have p: "0 < count_list fl (generation cb)"
    using count_list_nth_pos [OF i] by (simp add: g)
  have b: "unat (TotalSuccesses (counts cb)) + unat (TotalFailures (counts cb)) +
             count_list fl (generation cb) \<le> unat (Requests (counts cb))"
    using t True by (simp add: tracked_def)
  have "unat (TotalFailures (counts cb)) < 4294967295"
    using p b unat_lt32 [of "Requests (counts cb)"] by linarith
  then have inc: "unat (TotalFailures (counts cb) + 1) = Suc (unat (TotalFailures (counts cb)))"
    by (rule unat_inc32)
  have c: "count_list (take i fl @ drop (Suc i) fl) (generation cb) =
             count_list fl (generation cb) - 1"
    using count_list_remove [OF i, of "generation cb"] by (simp add: g)
  have s: "\<forall>x \<in> set (take i fl @ drop (Suc i) fl). unat x \<le> unat (generation cb)"
    using t set_remove_subset [of i fl] by (auto simp add: tracked_def simp del: set_append)
  show ?thesis
    unfolding tracked_def
    using t p b inc c s by (simp add: tracked_def del: set_append count_list_append)
next
  case False
  have s: "\<forall>x \<in> set (take i fl @ drop (Suc i) fl). unat x \<le> unat (generation cb)"
    using t set_remove_subset [of i fl] by (auto simp add: tracked_def simp del: set_append)
  show ?thesis
    unfolding tracked_def
    using t s False by (simp add: tracked_def del: set_append count_list_append)
qed

lemma tracked_then_setState:
  assumes t: "tracked m a cb1 fl" and m: "m < 18446744073709551615"
    and g: "generation cb1 = generation cb"
  shows "tracked (Suc m) (if generation (setState cb1 st now) = generation cb then a else 0)
           (setState cb1 st now) fl"
proof -
  from setState_advances [of cb1 st now] show ?thesis
  proof
    assume "setState cb1 st now = cb1"
    then show ?thesis using t g by (simp add: tracked_mono)
  next
    assume "advances cb1 (setState cb1 st now)"
    from advancesD [OF this t m] show ?thesis by (simp add: g)
  qed
qed

lemma tracked_onSuccess:
  assumes t: "tracked m a cb fl" and i: "i < length fl" and g: "fl ! i = generation cb"
    and m: "m < 18446744073709551615"
  shows "tracked (Suc m) (if generation (onSuccess cb st now) = generation cb then a else 0)
           (onSuccess cb st now) (take i fl @ drop (Suc i) fl)"
proof (cases st)
  case StateClosed
  then show ?thesis
    using tracked_count_success [OF t i g] by (simp add: onSuccess_def tracked_mono)
next
  case StateHalfOpen
  let ?cb1 = "cb\<lparr>counts := (counts cb)\<lparr>TotalSuccesses := TotalSuccesses (counts cb) + 1,
           ConsecutiveSuccesses := ConsecutiveSuccesses (counts cb) + 1,
           ConsecutiveFailures := 0\<rparr>\<rparr>"
  have t1: "tracked m a ?cb1 (take i fl @ drop (Suc i) fl)"
    by (rule tracked_count_success [OF t i g])
  have g1: "generation ?cb1 = generation cb" by simp
  show ?thesis
    using tracked_then_setState [OF t1 m g1, of StateClosed now] t1 StateHalfOpen
    by (simp add: onSuccess_def Let_def tracked_mono)
next
  case StateOpen
  then show ?thesis
    using tracked_remove [OF t i] by (simp add: onSuccess_def tracked_mono)
qed

lemma tracked_onFailure:
  assumes t: "tracked m a cb fl" and i: "i < length fl" and g: "fl ! i = generation cb"
    and m: "m < 18446744073709551615"
  shows "tracked (Suc m) (if generation (onFailure cb st now) = generation cb then a else 0)
           (onFailure cb st now) (take i fl @ drop (Suc i) fl)"
proof (cases st)
  case StateClosed
  let ?cb1 = "cb\<lparr>counts := (counts cb)\<lparr>TotalFailures := TotalFailures (counts cb) + 1,
           ConsecutiveFailures := ConsecutiveFailures (counts cb) + 1,
           ConsecutiveSuccesses := 0\<rparr>\<rparr>"
  have t1: "tracked m a ?cb1 (take i fl @ drop (Suc i) fl)"
    by (rule tracked_count_failure [OF t i g])
  have g1: "generation ?cb1 = generation cb" by simp
  show ?thesis
    using tracked_then_setState [OF t1 m g1, of StateOpen now] t1 StateClosed
    by (simp add: onFailure_def Let_def tracked_mono)
next
  case StateHalfOpen
  have t1: "tracked m a cb (take i fl @ drop (Suc i) fl)"
    by (rule tracked_remove [OF t i])
  show ?thesis
    using tracked_then_setState [OF t1 m refl, of StateOpen now] StateHalfOpen
    by (simp add: onFailure_def)
next
  case StateOpen
  then show ?thesis
    using tracked_remove [OF t i] by (simp add: onFailure_def tracked_mono)
qed

lemma tracked_afterRequest:
  assumes t: "tracked m a cb fl" and m: "m < 18446744073709551615" and i: "i < length fl"
  shows "tracked (Suc m)
     (if generation (afterRequest cb (fl ! i) ok now) = generation cb then a else 0)
     (afterRequest cb (fl ! i) ok now) (take i fl @ drop (Suc i) fl)"
proof -
  obtain st g cb1 where c: "currentState cb now = ((st, g), cb1)"
    and st: "st = state cb1" and g: "g = generation cb1"
    and cb1: "cb1 = snd (currentState cb now)"
    by (rule currentState_split)
  from currentState_advances [of cb now] show ?thesis
  proof
    assume "snd (currentState cb now) = cb"
    then have e: "cb1 = cb" by (simp add: cb1)
    show ?thesis
    proof (cases "fl ! i = generation cb")
      case True
      then show ?thesis
        using tracked_onSuccess [OF t i True m, of st now]
          tracked_onFailure [OF t i True m, of st now]
        by (simp add: afterRequest_def c e g)
    next
      case False
      then show ?thesis
        using tracked_remove [OF t i] by (simp add: afterRequest_def c e g tracked_mono)
    qed
  next
    assume "advances cb (snd (currentState cb now))"
    then have a: "advances cb cb1" by (simp add: cb1)
    from advancesD [OF a t m]
    have t1: "tracked (Suc m) 0 cb1 fl" and g1: "generation cb1 = generation cb + 1"
      and ne: "generation cb1 \<noteq> generation cb" by simp_all
    have u: "unat (generation cb + 1) = Suc (unat (generation cb))"
      using t m by (intro unat_inc64) (simp add: tracked_def)
    have "unat (fl ! i) \<le> unat (generation cb)"
      using t i by (simp add: tracked_def)
    then have "fl ! i \<noteq> generation cb1"
      using u g1 by auto
    then show ?thesis
      using tracked_remove [OF t1 i] ne by (simp add: afterRequest_def c g)
  qed
qed

lemma generation_distance:
  "unat (generation cb') \<le> unat (generation cb) + unat (generation cb' - generation cb)"
  using unat_add_le64 [of "generation cb" "generation cb' - generation cb"] by simp

lemma step_tracked:
  assumes t: "tracked n a (breaker s) (inflight s)" and n: "n < 18446744073709551615"
  shows "tracked (n + unat (generation (breaker (step s op)) - generation (breaker s)))
           (admitted_after s a op) (breaker (step s op)) (inflight (step s op))"
proof -
  have b: "unat (generation (breaker (step s op))) \<le>
             n + unat (generation (breaker (step s op)) - generation (breaker s))"
    using generation_distance [of "breaker (step s op)" "breaker s"] t
    by (simp add: tracked_def)
  have "tracked (Suc n) (admitted_after s a op) (breaker (step s op)) (inflight (step s op))"
  proof (cases op)
    case (Admit now)
    obtain g e cb' where r: "beforeRequest (breaker s) now = ((g, e), cb')"
      by (metis prod.exhaust)
    show ?thesis
      using tracked_beforeRequest [OF t n, of now]
      by (cases e) (simp_all add: Admit r admitted_after_def)
  next
    case (Complete i ok now)
    show ?thesis
    proof (cases "i < length (inflight s)")
      case True
      then show ?thesis
        using tracked_afterRequest [OF t n True, of ok now]
        by (simp add: Complete admitted_after_def)
    next
      case False
      then show ?thesis
        using t by (simp add: Complete admitted_after_def tracked_mono)
    qed
  next
    case (AskState now)
    have e: "snd (State_of (breaker s) now) = snd (currentState (breaker s) now)"
      by (simp add: State_of_def split: prod.splits)
    show ?thesis
      using tracked_currentState [OF t n, of now] by (simp add: AskState e admitted_after_def)
  next
    case AskCounts
    then show ?thesis
      using t by (simp add: Counts_of_def admitted_after_def tracked_mono)
  qed
  then show ?thesis using b by (rule tracked_rebound)
qed

lemma tally_grows: "n \<le> snd (tally s a n ops)"
proof (induction ops arbitrary: s a n)
  case Nil
  then show ?case by simp
next
  case (Cons op ops)
  have "n + unat (generation (breaker (step s op)) - generation (breaker s)) \<le>
          snd (tally (step s op) (admitted_after s a op)
                 (n + unat (generation (breaker (step s op)) - generation (breaker s))) ops)"
    by (rule Cons.IH)
  then show ?case by simp
qed

lemma run_tracked:
  assumes "tracked n a (breaker s) (inflight s)"
    and "snd (tally s a n ops) < 18446744073709551615"
  shows "tracked (snd (tally s a n ops)) (fst (tally s a n ops))
           (breaker (run s ops)) (inflight (run s ops))"
  using assms
proof (induction ops arbitrary: s a n)
  case Nil
  then show ?case by (simp add: run_def)
next
  case (Cons op ops)
  let ?n = "n + unat (generation (breaker (step s op)) - generation (breaker s))"
  let ?a = "admitted_after s a op"
  have f: "snd (tally (step s op) ?a ?n ops) < 18446744073709551615"
    using Cons.prems(2) by simp
  have "n \<le> ?n" by simp
  also have "?n \<le> snd (tally (step s op) ?a ?n ops)" by (rule tally_grows)
  finally have n: "n < 18446744073709551615" using f by simp
  have s: "tracked ?n ?a (breaker (step s op)) (inflight (step s op))"
    using Cons.prems(1) n by (rule step_tracked)
  have "tracked (snd (tally (step s op) ?a ?n ops)) (fst (tally (step s op) ?a ?n ops))
          (breaker (run (step s op) ops)) (inflight (run (step s op) ops))"
    using s f by (rule Cons.IH)
  then show ?case by (simp add: run_def)
qed

lemma start_tracked: "tracked 1 0 (breaker (start nm conf t0)) (inflight (start nm conf t0))"
  by (simp add: tracked_def start_def New_fields Counts_zero_def)

lemma tracked_Counts_ok: "tracked m a cb fl \<Longrightarrow> a < 4294967296 \<Longrightarrow> Counts_ok (counts cb)"
  by (auto simp add: tracked_def Counts_ok_def)

lemma tally_append:
  "tally s a n (xs @ ys) =
     tally (run s xs) (fst (tally s a n xs)) (snd (tally s a n xs)) ys"
  by (induction xs arbitrary: s a n) (simp_all add: run_def)

lemma one_success_tally:
  assumes "state (breaker s) = StateClosed" and "expiry (breaker s) = 0"
    and "inflight s = []"
  shows "tally s a n one_success = (Suc a, n)"
  using assms
  by (simp add: one_success_def admitted_after_def beforeRequest_def afterRequest_def
      currentState_Closed_keep onSuccess_def)

lemma many_successes_tally:
  assumes "state (breaker s) = StateClosed" and "expiry (breaker s) = 0"
    and "inflight s = []"
  shows "tally s a n (concat (replicate k one_success)) = (a + k, n)"
  using assms
proof (induction k arbitrary: s a)
  case 0
  then show ?case by simp
next
  case (Suc k)
  note st = one_success_step [OF Suc.prems]
  have "tally s a n (concat (replicate (Suc k) one_success)) =
          tally (run s one_success) (Suc a) n (concat (replicate k one_success))"
    using one_success_tally [OF Suc.prems, of a n] by (simp add: tally_append)
  then show ?case
    using Suc.IH [of "run s one_success" "Suc a"] st by simp
qed

lemma start_closed:
  "state (breaker (start nm cfg_default t0)) = StateClosed"
  "expiry (breaker (start nm cfg_default t0)) = 0"
  "inflight (start nm cfg_default t0) = []"
  "Requests (counts (breaker (start nm cfg_default t0))) = 0"
  "TotalSuccesses (counts (breaker (start nm cfg_default t0))) = 0"
  by (simp_all add: start_def New_fields cfg_default_fields Counts_zero_def)

lemma scenario_S4_tally:
  "tally (start ''svc'' cfg_default 0) 0 1 scenario_S4 = (5, 1)"
  by (simp add: scenario_S4_def admitted_after_def start_def beforeRequest_def
      afterRequest_def currentState_Closed_keep New_fields cfg_default_fields onSuccess_def
      onFailure_def Let_def Counts_zero_def word_less_nat_alt)

section \<open>The claims\<close>

text \<open>
  C1.  \<open>Execute\<close> does not consult \<open>Config.IsSuccessful\<close>: \<open>New\<close> never reads the field
  and \<open>Execute\<close> reports \<open>err == nil\<close>.  With a classifier that accepts every result, a
  work unit returning an error is still reported to \<open>afterRequest\<close> as a failure:
  \<open>TotalFailures\<close> becomes 1 and \<open>TotalSuccesses\<close> stays 0.
\<close>

theorem Execute_ignores_configured_classifier:
  "(case IsSuccessful cfg_lenient of None \<Rightarrow> False
    | Some f \<Rightarrow> f (Some (WorkError ''not found''))) \<and>
   fst (Execute (New ''svc'' cfg_lenient 0) (Returns (Some (WorkError ''not found''))) 0 0) =
     Returned (Some (WorkError ''not found'')) \<and>
   counts (snd (Execute (New ''svc'' cfg_lenient 0)
                  (Returns (Some (WorkError ''not found''))) 0 0)) =
     \<lparr>Requests = 1, TotalSuccesses = 0, TotalFailures = 1,
      ConsecutiveSuccesses = 0, ConsecutiveFailures = 1\<rparr>"
  by (simp add: cfg_lenient_def cb_defs word_less_nat_alt)

text \<open>
  C2.  \<open>GetCounts\<close> is not idempotent: \<open>expireReadOnly\<close> subtracts every expired bucket from
  \<open>sw.total\<close> itself and keeps the bucket, so each read subtracts it again.  One success is
  recorded at 5.3 s in a window of ten seconds; two reads at the same instant, 20 s, with
  nothing in between, return (0, 0, 0) and then (4294967295, 4294967295, 0).
\<close>

theorem GetCounts_twice_differs:
  "fst (GetCounts window_one (20 * Second)) = (0, 0, 0) \<and>
   fst (GetCounts (snd (GetCounts window_one (20 * Second))) (20 * Second)) =
     (4294967295, 4294967295, 0) \<and>
   fst (GetCounts (snd (GetCounts window_one (20 * Second))) (20 * Second)) \<noteq>
     fst (GetCounts window_one (20 * Second))"
  by (simp add: GetCounts_def expireReadOnly_def window_one_fields subtract_bucket_def
      Second_def Let_def)

text \<open>
  C3, as the code has it.  When the generation that \<open>currentState\<close> reports at completion
  differs from the admission-time generation, \<open>afterRequest\<close> does exactly what the lazy
  re-read of the state does and nothing more: neither \<open>onSuccess\<close> nor \<open>onFailure\<close> is
  applied, whatever the outcome.  When no lazy transition is due (Half-Open; Closed with no
  expiry or with the expiry not yet passed; Open with the expiry not yet passed) the breaker is
  left exactly as it was: same Counts, same state, no notifier invocation.
\<close>

theorem stale_completion_only_rereads_state:
  "snd (fst (currentState cb now)) \<noteq> before \<Longrightarrow>
     afterRequest cb before success now = snd (currentState cb now) \<and>
     (state cb = StateHalfOpen \<or>
      state cb = StateClosed \<and> (expiry cb = 0 \<or> now \<le> expiry cb) \<or>
      state cb = StateOpen \<and> now \<le> expiry cb \<longrightarrow>
        afterRequest cb before success now = cb)"
  by (cases "currentState cb now")
     (auto simp add: afterRequest_def currentState_HalfOpen currentState_Closed_keep
       currentState_Open_wait)

theorem stale_completion_only_rereads_state_witness:
  "snd (fst (currentState open_breaker 50000000)) \<noteq> 1 \<and>
   state open_breaker = StateOpen \<and> 50000000 \<le> expiry open_breaker \<and>
   afterRequest open_breaker 1 True 50000000 = open_breaker \<and>
   snd (fst (currentState open_breaker 100000001)) \<noteq> 1 \<and>
   afterRequest open_breaker 1 True 100000001 = snd (currentState open_breaker 100000001)"
  using stale_completion_only_rereads_state [of open_breaker 50000000 1 True]
    stale_completion_only_rereads_state [of open_breaker 100000001 1 True]
  by (simp add: open_breaker_fields currentState_Open_wait currentState_Open_due setState_fields)

text \<open>
  C3, as stated, fails: the lazy re-read inside \<open>afterRequest\<close> can itself move the breaker.
  An invocation admitted in generation 1 completes after the breaker has tripped and the
  cool-off has passed: \<open>afterRequest\<close> moves the breaker from Open to Half-Open (generation
  3) and invokes the notifier, and only then discards the outcome.  With a periodic reset,
  an invocation admitted in generation 1 that completes after the interval has its own
  generation rolled over by \<open>afterRequest\<close>, which clears the Counts (Requests 1 to 0).
\<close>

theorem stale_completion_counterexample:
  "fst (beforeRequest (New ''svc'' cfg_trip1 0) 0) = (1, None) \<and>
   state tripped_busy_breaker = StateOpen \<and>
   generation (afterRequest tripped_busy_breaker 1 True 100000001) = 3 \<and>
   state (afterRequest tripped_busy_breaker 1 True 100000001) = StateHalfOpen \<and>
   notified (afterRequest tripped_busy_breaker 1 True 100000001) =
     notified tripped_busy_breaker @ [(''svc'', StateOpen, StateHalfOpen)] \<and>
   fst (beforeRequest (New ''svc'' cfg_interval 0) 0) = (1, None) \<and>
   counts rolling_breaker = Counts_zero\<lparr>Requests := 1\<rparr> \<and>
   generation (afterRequest rolling_breaker 1 True 2000000000) = 2 \<and>
   counts (afterRequest rolling_breaker 1 True 2000000000) = Counts_zero \<and>
   counts (afterRequest rolling_breaker 1 True 2000000000) \<noteq> counts rolling_breaker"
  by (auto simp add: tripped_busy_breaker_fields rolling_breaker_fields afterRequest_def
      currentState_Open_due currentState_Closed_roll setState_fields toNewGeneration_def
      Counts_zero_def split: option.splits)

text \<open>
  C4, as the code has it.  \<open>currentState\<close> tests \<open>expiry.Before(now)\<close>, a strict comparison.
  For a breaker in Open whose probe budget is not zero (\<open>New\<close> never leaves it zero): an
  admission at \<open>now > expiry\<close> moves the breaker to Half-Open in the next generation with
  expiry zero and is admitted, counting one request; an admission at \<open>now \<le> expiry\<close>, the
  instant \<open>now = expiry\<close> included, is rejected with \<open>ErrCircuitOpen\<close> and leaves the breaker
  as it was.
\<close>

theorem open_admission_strictly_after_expiry:
  "state cb = StateOpen \<Longrightarrow> maxRequests cb \<noteq> 0 \<Longrightarrow>
     (expiry cb < now \<longrightarrow>
        fst (beforeRequest cb now) = (generation cb + 1, None) \<and>
        state (snd (beforeRequest cb now)) = StateHalfOpen \<and>
        generation (snd (beforeRequest cb now)) = generation cb + 1 \<and>
        expiry (snd (beforeRequest cb now)) = 0 \<and>
        counts (snd (beforeRequest cb now)) = Counts_zero\<lparr>Requests := 1\<rparr>) \<and>
     (now \<le> expiry cb \<longrightarrow>
        beforeRequest cb now = ((generation cb, Some ErrCircuitOpen), cb))"
  by (simp add: beforeRequest_def currentState_Open_wait currentState_Open_due setState_fields
      Counts_zero_def)

theorem open_admission_strictly_after_expiry_witness:
  "state open_breaker = StateOpen \<and> maxRequests open_breaker \<noteq> 0 \<and>
   expiry open_breaker < 100000001 \<and>
   fst (beforeRequest open_breaker 100000001) = (3, None) \<and>
   state (snd (beforeRequest open_breaker 100000001)) = StateHalfOpen \<and>
   expiry (snd (beforeRequest open_breaker 100000001)) = 0 \<and>
   99999999 \<le> expiry open_breaker \<and>
   beforeRequest open_breaker 99999999 = ((2, Some ErrCircuitOpen), open_breaker)"
  using open_admission_strictly_after_expiry [of open_breaker 100000001]
    open_admission_strictly_after_expiry [of open_breaker 99999999]
  by (simp add: open_breaker_fields)

text \<open>
  C4, as stated, fails at the instant \<open>now = expiry\<close>: the breaker tripped at instant 0 with
  a cool-off of 100 ms has expiry 100 ms; an admission at exactly 100 ms is rejected with
  \<open>ErrCircuitOpen\<close> and the breaker stays Open.
\<close>

theorem open_admission_at_expiry_counterexample:
  "state open_breaker = StateOpen \<and>
   expiry open_breaker = 100000000 \<and>
   beforeRequest open_breaker 100000000 = ((2, Some ErrCircuitOpen), open_breaker) \<and>
   state (snd (beforeRequest open_breaker 100000000)) \<noteq> StateHalfOpen"
  by (simp add: beforeRequest_def currentState_Open_wait open_breaker_fields)

text \<open>
  C5.  In \<open>ExecuteWithContext\<close> the token fires first and the work then panics in the
  background: the call returns the token's cause, and \<open>afterRequest\<close> is called twice for the
  one admission, by the \<open>ctx.Done()\<close> case and again by the deferred \<open>recover\<close> handler.  On a
  fresh breaker this counts two failures for one request.
\<close>

theorem ExecuteWithContext_reports_twice:
  "ExecuteWithContext (New ''svc'' cfg_default 0) (TokenFirst DeadlineExceeded Panics) 0 20 100 =
     (Returned (Some DeadlineExceeded),
      (New ''svc'' cfg_default 0)
        \<lparr>counts := \<lparr>Requests = 1, TotalSuccesses = 0, TotalFailures = 2,
                    ConsecutiveSuccesses = 0, ConsecutiveFailures = 2\<rparr>\<rparr>,
      2)"
  by (simp add: ExecuteWithContext_def beforeRequest_def afterRequest_def
      currentState_Closed_keep New_fields cfg_default_fields onFailure_def Let_def
      Counts_zero_def word_less_nat_alt)

text \<open>
  C6, as the code has it.  A breaker is built by \<open>New\<close> and then used through any sequence of
  admissions, completions (one per admitted invocation, with the token of its admission) and
  inspections, including every lazy transition and generation reset these cause.  After the
  sequence \<open>ConsecutiveSuccesses\<close> and \<open>ConsecutiveFailures\<close> are not both non-zero.  And
  \<open>TotalSuccesses + TotalFailures \<le> Requests\<close> holds whenever fewer than \<open>2^32\<close> admissions
  have been granted in the current generation, so that \<open>Requests\<close> has not wrapped around,
  and fewer than \<open>2^64 - 1\<close> generations have been entered, so that the generation counter
  has not wrapped around either.  Inspections, rejected admissions, completions and the
  admissions of earlier generations do not count against the first bound.
\<close>

theorem Counts_invariants_below_wraparound:
  "(ConsecutiveSuccesses (Counts_after nm conf t0 ops) = 0 \<or>
    ConsecutiveFailures (Counts_after nm conf t0 ops) = 0) \<and>
   (admitted_in_generation nm conf t0 ops < 4294967296 \<and>
    generations_entered nm conf t0 ops < 18446744073709551615 \<longrightarrow>
      Counts_ok (Counts_after nm conf t0 ops))"
proof (intro conjI impI)
  show "ConsecutiveSuccesses (Counts_after nm conf t0 ops) = 0 \<or>
        ConsecutiveFailures (Counts_after nm conf t0 ops) = 0"
    using exclusive_run [OF exclusive_start, of nm conf t0 ops]
    by (simp add: exclusive_def Counts_after_def)
  assume h: "admitted_in_generation nm conf t0 ops < 4294967296 \<and>
    generations_entered nm conf t0 ops < 18446744073709551615"
  let ?s = "start nm conf t0"
  have "tracked (snd (tally ?s 0 1 ops)) (fst (tally ?s 0 1 ops))
          (breaker (run ?s ops)) (inflight (run ?s ops))"
    using start_tracked h by (intro run_tracked) (simp_all add: generations_entered_def)
  moreover have "fst (tally ?s 0 1 ops) < 4294967296"
    using h by (simp add: admitted_in_generation_def)
  ultimately show "Counts_ok (Counts_after nm conf t0 ops)"
    unfolding Counts_after_def by (rule tracked_Counts_ok)
qed

theorem Counts_invariants_below_wraparound_witness:
  "admitted_in_generation ''svc'' cfg_default 0 scenario_S4 = 5 \<and>
   generations_entered ''svc'' cfg_default 0 scenario_S4 = 1 \<and>
   Counts_ok (Counts_after ''svc'' cfg_default 0 scenario_S4) \<and>
   Counts_after ''svc'' cfg_default 0 scenario_S4 =
     \<lparr>Requests = 5, TotalSuccesses = 3, TotalFailures = 2,
      ConsecutiveSuccesses = 0, ConsecutiveFailures = 2\<rparr> \<and>
   admitted_in_generation ''svc'' cfg_default 0 (concat (replicate 2147483648 one_success)) =
     2147483648 \<and>
   generations_entered ''svc'' cfg_default 0 (concat (replicate 2147483648 one_success)) = 1 \<and>
   length (concat (replicate 2147483648 one_success)) = 4294967296 \<and>
   Counts_ok (Counts_after ''svc'' cfg_default 0 (concat (replicate 2147483648 one_success)))"
proof -
  have a: "admitted_in_generation ''svc'' cfg_default 0 scenario_S4 = 5"
    "generations_entered ''svc'' cfg_default 0 scenario_S4 = 1"
    unfolding admitted_in_generation_def generations_entered_def scenario_S4_tally
    by simp_all
  have b: "admitted_in_generation ''svc'' cfg_default 0
             (concat (replicate 2147483648 one_success)) = 2147483648"
    "generations_entered ''svc'' cfg_default 0 (concat (replicate 2147483648 one_success)) = 1"
    by (simp_all add: admitted_in_generation_def generations_entered_def
        many_successes_tally [OF start_closed(1-3)])
  have l: "length (concat (replicate 2147483648 one_success)) = 4294967296"
    by (simp add: one_success_def length_concat sum_list_replicate)
  show ?thesis
    using Counts_invariants_below_wraparound [of "''svc''" cfg_default 0 scenario_S4]
      Counts_invariants_below_wraparound
        [of "''svc''" cfg_default 0 "concat (replicate 2147483648 one_success)"]
    by (simp add: a b l scenario_S4_counts)
qed

text \<open>
  C6, as stated, fails once \<open>Requests\<close> wraps around.  With the default configuration (no
  periodic reset) \<open>2^32 - 1\<close> successful calls of \<open>Execute\<close> leave \<open>Requests\<close> and
  \<open>TotalSuccesses\<close> at \<open>4294967295\<close>; the next admission, the \<open>2^32\<close>-th granted in the one
  generation, increments \<open>Requests\<close> to 0 while \<open>TotalSuccesses\<close> is still \<open>4294967295\<close>.
\<close>

theorem Counts_invariant_wraparound_counterexample:
  "\<not> Counts_ok (Counts_after ''svc'' cfg_default 0
        (concat (replicate 4294967295 one_success) @ [Admit 0])) \<and>
   admitted_in_generation ''svc'' cfg_default 0
     (concat (replicate 4294967295 one_success) @ [Admit 0]) = 4294967296 \<and>
   generations_entered ''svc'' cfg_default 0
     (concat (replicate 4294967295 one_success) @ [Admit 0]) = 1"
proof -
  let ?s = "start ''svc'' cfg_default 0"
  let ?s1 = "run ?s (concat (replicate 4294967295 one_success))"
  have m: "state (breaker ?s1) = StateClosed" "expiry (breaker ?s1) = 0"
    "Requests (counts (breaker ?s1)) = 4294967295"
    "TotalSuccesses (counts (breaker ?s1)) = 4294967295"
    using many_successes [OF start_closed(1-3), of "''svc''" 0 4294967295]
    by (simp_all add: start_closed)
  have a: "counts (breaker (step ?s1 (Admit 0))) =
             (counts (breaker ?s1))\<lparr>Requests := 0\<rparr>"
    by (simp add: beforeRequest_def currentState_Closed_keep m)
  have "Counts_after ''svc'' cfg_default 0
          (concat (replicate 4294967295 one_success) @ [Admit 0]) =
        (counts (breaker ?s1))\<lparr>Requests := 0\<rparr>"
    unfolding Counts_after_def run_append using a by (simp add: run_def)
  then have c: "\<not> Counts_ok (Counts_after ''svc'' cfg_default 0
        (concat (replicate 4294967295 one_success) @ [Admit 0]))"
    by (simp add: Counts_ok_def m)
  have t: "tally ?s 0 1 (concat (replicate 4294967295 one_success) @ [Admit 0]) =
             (4294967296, 1)"
    by (simp add: tally_append many_successes_tally [OF start_closed(1-3)]
        admitted_after_def beforeRequest_def currentState_Closed_keep m)
  show ?thesis
    using c t by (simp add: admitted_in_generation_def generations_entered_def)
qed



text \<open>
  C8.  In Half-Open, an admission that finds \<open>Requests\<close> at or above \<open>maxRequests\<close> is
  rejected with \<open>ErrTooManyRequests\<close>, returns the current generation and leaves the breaker
  as it was, so \<open>Requests\<close> is not incremented.  In particular, with a budget of three and
  no completion in between, the first three admissions pass and the fourth is rejected.
\<close>

theorem halfopen_rejects_over_budget:
  "(state cb = StateHalfOpen \<and> maxRequests cb \<le> Requests (counts cb) \<longrightarrow>
      beforeRequest cb now = ((generation cb, Some ErrTooManyRequests), cb)) \<and>
   (state cb = StateHalfOpen \<and> maxRequests cb = 3 \<and> Requests (counts cb) = 0 \<longrightarrow>
      (case beforeRequest cb t1 of (r1, cb1) \<Rightarrow>
       case beforeRequest cb1 t2 of (r2, cb2) \<Rightarrow>
       case beforeRequest cb2 t3 of (r3, cb3) \<Rightarrow>
       case beforeRequest cb3 t4 of (r4, cb4) \<Rightarrow>
         snd r1 = None \<and> snd r2 = None \<and> snd r3 = None \<and>
         r4 = (generation cb, Some ErrTooManyRequests) \<and>
         cb4 = cb3 \<and> Requests (counts cb4) = 3))"
  by (simp add: beforeRequest_HalfOpen word_le_nat_alt)

theorem halfopen_rejects_over_budget_witness:
  "state half_open_breaker = StateHalfOpen \<and> maxRequests half_open_breaker = 3 \<and>
   Requests (counts half_open_breaker) = 0 \<and>
   (case beforeRequest half_open_breaker 1 of (r1, cb1) \<Rightarrow>
    case beforeRequest cb1 2 of (r2, cb2) \<Rightarrow>
    case beforeRequest cb2 3 of (r3, cb3) \<Rightarrow>
      state cb3 = StateHalfOpen \<and> maxRequests cb3 \<le> Requests (counts cb3) \<and>
      beforeRequest cb3 4 = ((generation cb3, Some ErrTooManyRequests), cb3) \<and>
      fst (beforeRequest cb3 4) = (3, Some ErrTooManyRequests) \<and>
      Requests (counts (snd (beforeRequest cb3 4))) = 3)"
  using halfopen_rejects_over_budget [of half_open_breaker 0 1 2 3 4]
    halfopen_rejects_over_budget
      [of "snd (beforeRequest (snd (beforeRequest (snd (beforeRequest half_open_breaker 1)) 2)) 3)" 4]
  by (simp add: half_open_breaker_fields beforeRequest_HalfOpen Counts_zero_def word_le_nat_alt)

text \<open>
  C9.  Every \<open>Record\<close> of the slow-call detector increments \<open>totalCalls\<close>, and increments
  \<open>slowCalls\<close> iff the duration is strictly above the threshold; so after a sequence of
  records the two counters have grown (modulo \<open>2^32\<close>) by the number of records and by the
  number of durations above the threshold.  \<open>SlowCallRate\<close> is 0 when \<open>totalCalls\<close> is 0 and
  the quotient of the two counters otherwise, and \<open>ShouldTrip\<close> holds iff that rate is at or
  above the rate threshold.
\<close>

theorem slow_call_detector_counts_and_rate:
  "totalCalls (Record_call d duration) = totalCalls d + 1 \<and>
   slowCalls (Record_call d duration) =
     (if SlowCallDuration (config d) < duration then slowCalls d + 1 else slowCalls d) \<and>
   totalCalls (record_calls d xs) = totalCalls d + of_nat (length xs) \<and>
   slowCalls (record_calls d xs) =
     slowCalls d + of_nat (length (filter (\<lambda>x. SlowCallDuration (config d) < x) xs)) \<and>
   SlowCallRate fdiv d =
     (if totalCalls d = 0 then 0
      else fdiv (real (unat (slowCalls d))) (real (unat (totalCalls d)))) \<and>
   (ShouldTrip fdiv d \<longleftrightarrow> SlowCallRateThreshold (config d) \<le> SlowCallRate fdiv d)"
  by (simp add: record_calls_totals Record_call_def Let_def SlowCallRate_def ShouldTrip_def)

theorem slow_call_detector_counts_and_rate_witness:
  "totalCalls (record_calls detector_100ms
      [50 * Millisecond, 150 * Millisecond, 50 * Millisecond, 200 * Millisecond]) = 4 \<and>
   slowCalls (record_calls detector_100ms
      [50 * Millisecond, 150 * Millisecond, 50 * Millisecond, 200 * Millisecond]) = 2 \<and>
   slowCalls (Record_call detector_100ms (100 * Millisecond)) = 0 \<and>
   SlowCallRate (/) (record_calls detector_100ms
      [50 * Millisecond, 150 * Millisecond, 50 * Millisecond, 200 * Millisecond]) = 1 / 2 \<and>
   ShouldTrip (/) (record_calls detector_100ms
      [50 * Millisecond, 150 * Millisecond, 50 * Millisecond, 200 * Millisecond]) \<and>
   SlowCallRate (/) detector_100ms = 0 \<and>
   \<not> ShouldTrip (/) detector_100ms"
  using slow_call_detector_counts_and_rate
      [of detector_100ms "100 * Millisecond"
          "[50 * Millisecond, 150 * Millisecond, 50 * Millisecond, 200 * Millisecond]" "(/)"]
    slow_call_detector_counts_and_rate
      [of "record_calls detector_100ms
            [50 * Millisecond, 150 * Millisecond, 50 * Millisecond, 200 * Millisecond]"
          0 "[]" "(/)"]
  by (simp add: detector_100ms_def NewSlowCallDetector_def Millisecond_def Record_call_def
      Let_def)

text \<open>
  C10.  \<open>Counts()\<close> returns the stored tallies and does not evaluate the lazy transition:
  on a breaker that is Open with its expiry in the past it leaves the breaker as it is (still
  Open, same generation), whereas \<open>State()\<close> at the same instant answers Half-Open, moves the
  breaker to Half-Open in the next generation and clears the tallies.
\<close>

theorem Counts_does_not_evaluate_lazy_transition:
  "state cb = StateOpen \<Longrightarrow> expiry cb < now \<Longrightarrow>
     Counts_of cb = (counts cb, cb) \<and>
     state (snd (Counts_of cb)) = StateOpen \<and>
     generation (snd (Counts_of cb)) = generation cb \<and>
     fst (State_of cb now) = StateHalfOpen \<and>
     state (snd (State_of cb now)) = StateHalfOpen \<and>
     generation (snd (State_of cb now)) = generation cb + 1 \<and>
     counts (snd (State_of cb now)) = Counts_zero"
  by (simp add: Counts_of_def State_of_def currentState_def setState_def toNewGeneration_def
      Let_def split: option.splits)

theorem Counts_does_not_evaluate_lazy_transition_witness:
  "state open_breaker = StateOpen \<and> expiry open_breaker < 100000001 \<and>
     Counts_of open_breaker = (counts open_breaker, open_breaker) \<and>
     state (snd (Counts_of open_breaker)) = StateOpen \<and>
     generation (snd (Counts_of open_breaker)) = 2 \<and>
     fst (State_of open_breaker 100000001) = StateHalfOpen \<and>
     generation (snd (State_of open_breaker 100000001)) = 3 \<and>
     counts (snd (State_of open_breaker 100000001)) = Counts_zero"
  using Counts_does_not_evaluate_lazy_transition [of open_breaker 100000001]
  by (simp add: open_breaker_fields)

end
